theory Spec2Isabelle
  imports Main
begin

section \<open>Library calls and their outcomes\<close>

text \<open>
  The crawler of \<^verbatim>\<open>site_inspector.py\<close> talks to the network through \<^verbatim>\<open>requests\<close>,
  \<^verbatim>\<open>urllib\<close> and \<^verbatim>\<open>bs4\<close>. A call that may raise is a function into \<open>'a outcome\<close>; the
  \<^verbatim>\<open>try\<close>/\<^verbatim>\<open>except\<close> blocks of the source are the case distinctions on it.
\<close>

datatype 'a outcome = Raised | Returned 'a

text \<open>
  A parsed page, as \<^verbatim>\<open>process_page\<close> uses it: the dictionary that \<^verbatim>\<open>check_spelling\<close>
  computes from the visible text, and the \<^verbatim>\<open>a\<close> and \<^verbatim>\<open>img\<close> tags in document order, each
  with its \<^verbatim>\<open>href\<close> or \<^verbatim>\<open>src\<close> attribute if it has one.
\<close>

datatype tag = Anchor "string option" | Image "string option"

record page =
  misspelled :: "(string \<times> string option) list"
  tags :: "tag list"

text \<open>What \<^verbatim>\<open>RobotFileParser.read\<close> meets at the robots URL.\<close>

datatype robots_txt =
    ReadRaised
  | HttpError nat
  | Body "string \<Rightarrow> bool outcome"

record network =
  urljoin :: "string \<Rightarrow> string \<Rightarrow> string"
  netloc :: "string \<Rightarrow> string"
  http_get :: "string \<Rightarrow> page outcome"
  http_head :: "string \<Rightarrow> nat outcome"
  robots_read :: "string \<Rightarrow> robots_txt"

section \<open>The network location of a URL\<close>

text \<open>
  \<^verbatim>\<open>urlparse(u).netloc\<close> of the standard library (\<^verbatim>\<open>urlsplit\<close> in \<^verbatim>\<open>urllib/parse.py\<close>), for
  strings of code points below 256. Leading characters up to the space (code 32) are
  stripped and every TAB, CR and LF is removed (\<open>clean_url\<close>); a scheme (a letter, then
  letters, digits, \<^verbatim>\<open>+\<close>, \<^verbatim>\<open>-\<close>, \<^verbatim>\<open>.\<close>, up to the first colon) is cut off (\<open>strip_scheme\<close>); if
  the rest starts with \<^verbatim>\<open>//\<close>, the location is what follows, up to the first of \<^verbatim>\<open>/\<close>,
  \<^verbatim>\<open>?\<close>, \<^verbatim>\<open>#\<close>, and otherwise it is empty (\<open>authority\<close>). Nothing is lower-cased.
\<close>

definition is_alpha :: "char \<Rightarrow> bool" where
  "is_alpha c = (let n = (of_char c :: nat) in (65 \<le> n \<and> n \<le> 90) \<or> (97 \<le> n \<and> n \<le> 122))"

definition is_scheme_char :: "char \<Rightarrow> bool" where
  "is_scheme_char c =
     (let n = (of_char c :: nat) in
        is_alpha c \<or> (48 \<le> n \<and> n \<le> 57) \<or> c = CHR ''+'' \<or> c = CHR ''-'' \<or> c = CHR ''.'')"

definition c0_control_or_space :: "char \<Rightarrow> bool" where
  "c0_control_or_space c = ((of_char c :: nat) \<le> 32)"

definition unsafe_byte :: "char \<Rightarrow> bool" where
  "unsafe_byte c = (c = CHR 0x09 \<or> c = CHR 0x0D \<or> c = CHR 0x0A)"

definition clean_url :: "string \<Rightarrow> string" where
  "clean_url u = filter (\<lambda>c. \<not> unsafe_byte c) (dropWhile c0_control_or_space u)"

definition strip_scheme :: "string \<Rightarrow> string" where
  "strip_scheme u =
     (let s = takeWhile (\<lambda>c. c \<noteq> CHR '':'') u in
        if s \<noteq> [] \<and> length s < length u \<and> is_alpha (hd s) \<and> list_all is_scheme_char s
        then drop (Suc (length s)) u
        else u)"

definition is_delim :: "char \<Rightarrow> bool" where
  "is_delim c = (c = CHR ''/'' \<or> c = CHR ''?'' \<or> c = CHR ''#'')"


definition authority :: "string \<Rightarrow> string" where
  "authority u =
     (let r = strip_scheme (clean_url u) in
        if take 2 r = ''//'' then takeWhile (\<lambda>c. \<not> is_delim c) (drop 2 r) else [])"






section \<open>Helper functions\<close>

text \<open>
  \<^verbatim>\<open>is_internal_link(base_url, link)\<close>, over the parser of the network record: \<open>parse u\<close> is
  \<^verbatim>\<open>urlparse(u).netloc\<close> where \<^verbatim>\<open>urlparse\<close> returns. Where it raises, lines 25 and 26 raise
  and the function returns nothing; the theorems on the parser of the standard library
  carry the hypothesis that it returns.
\<close>

definition is_internal_link :: "(string \<Rightarrow> string) \<Rightarrow> string \<Rightarrow> string \<Rightarrow> bool" where
  "is_internal_link parse base_url link =
     (let parsed_base = parse base_url; parsed_link = parse link
      in parsed_link = [] \<or> parsed_link = parsed_base)"


record page_result =
  spelling_issues :: "(string \<times> string option) list"
  broken_links :: "string list"

definition empty_result :: page_result where
  "empty_result = \<lparr>spelling_issues = [], broken_links = []\<rparr>"

definition tag_attr :: "tag \<Rightarrow> string option" where
  "tag_attr t = (case t of Anchor h \<Rightarrow> h | Image s \<Rightarrow> s)"

definition starts_with :: "string \<Rightarrow> string \<Rightarrow> bool" where
  "starts_with p s = (take (length p) s = p)"

text \<open>
  \<^verbatim>\<open>check_broken_links(soup, base_url)\<close>: the loop over the tags, with the list
  \<^verbatim>\<open>broken\<close> as accumulator.
\<close>

fun check_broken_links_loop :: "network \<Rightarrow> string \<Rightarrow> string list \<Rightarrow> tag list \<Rightarrow> string list" where
  "check_broken_links_loop net base_url broken [] = broken"
| "check_broken_links_loop net base_url broken (t # ts) =
     (case tag_attr t of
        None \<Rightarrow> check_broken_links_loop net base_url broken ts
      | Some u \<Rightarrow>
          if u = [] then check_broken_links_loop net base_url broken ts
          else
            let full_url = urljoin net base_url u in
              if starts_with ''javascript:'' full_url
              then check_broken_links_loop net base_url broken ts
              else (case http_head net full_url of
                      Raised \<Rightarrow> check_broken_links_loop net base_url (broken @ [full_url]) ts
                    | Returned status_code \<Rightarrow>
                        if status_code \<ge> 400
                        then check_broken_links_loop net base_url (broken @ [full_url]) ts
                        else check_broken_links_loop net base_url broken ts))"

definition check_broken_links :: "network \<Rightarrow> tag list \<Rightarrow> string \<Rightarrow> string list" where
  "check_broken_links net soup base_url = check_broken_links_loop net base_url [] soup"

subsection \<open>The robots parser\<close>

text \<open>
  \<^verbatim>\<open>urllib.robotparser.RobotFileParser\<close> of the standard library, as far as \<^verbatim>\<open>crawl\<close>
  uses it. A new parser has \<^verbatim>\<open>disallow_all = allow_all = False\<close> and
  \<^verbatim>\<open>last_checked = 0\<close>. \<^verbatim>\<open>read\<close> sets \<^verbatim>\<open>disallow_all\<close> on HTTP 401 and 403, \<^verbatim>\<open>allow_all\<close>
  on the other 4xx codes, parses the body otherwise (which sets \<^verbatim>\<open>last_checked\<close>), and
  lets every exception that is not an \<^verbatim>\<open>HTTPError\<close> escape with the parser unchanged.
  \<^verbatim>\<open>can_fetch\<close> answers \<^verbatim>\<open>False\<close> while \<^verbatim>\<open>last_checked\<close> is unset: "Until the robots.txt
  file has been read or found not to exist, we must assume that no url is allowable."
  The rules of a parsed body are a function from the URL to the answer for agent \<^verbatim>\<open>*\<close>.
\<close>

record robot_file_parser =
  disallow_all :: bool
  allow_all :: bool
  last_checked :: bool
  entries :: "string \<Rightarrow> bool outcome"

definition new_parser :: robot_file_parser where
  "new_parser =
     \<lparr>disallow_all = False, allow_all = False, last_checked = False,
      entries = (\<lambda>u. Returned True)\<rparr>"

definition parser_read :: "robots_txt \<Rightarrow> robot_file_parser \<Rightarrow> robot_file_parser outcome" where
  "parser_read r rp =
     (case r of
        ReadRaised \<Rightarrow> Raised
      | HttpError code \<Rightarrow>
          Returned (if code = 401 \<or> code = 403 then rp\<lparr>disallow_all := True\<rparr>
                    else if 400 \<le> code \<and> code < 500 then rp\<lparr>allow_all := True\<rparr>
                    else rp)
      | Body rules \<Rightarrow> Returned (rp\<lparr>last_checked := True, entries := rules\<rparr>))"

definition parser_can_fetch :: "robot_file_parser \<Rightarrow> string \<Rightarrow> bool outcome" where
  "parser_can_fetch rp url =
     (if disallow_all rp then Returned False
      else if allow_all rp then Returned True
      else if \<not> last_checked rp then Returned False
      else entries rp url)"

text \<open>\<^verbatim>\<open>can_fetch_url(url, rp)\<close>.\<close>

definition can_fetch_url :: "string \<Rightarrow> robot_file_parser \<Rightarrow> bool" where
  "can_fetch_url url rp = (case parser_can_fetch rp url of Raised \<Rightarrow> True | Returned b \<Rightarrow> b)"

section \<open>Processing a single page\<close>

datatype line = Crawled int int string | ErrorCrawling string

record args =
  base_url :: string
  max_pages :: int
  max_workers :: int

text \<open>
  A worker runs \<^verbatim>\<open>process_page\<close>. It touches shared state at three kinds of places, each
  under a lock: the budget test on \<^verbatim>\<open>crawl_count\<close> at the start, one membership test on
  \<^verbatim>\<open>visited\<close> per link, and the increment of \<^verbatim>\<open>crawl_count\<close> at the end. A worker is
  \<open>WStart\<close> before the budget test, \<open>WLinks result new_links hrefs\<close> inside the link loop
  with \<open>hrefs\<close> still to do, and \<open>WDone page_result new_links\<close> once it has returned.
\<close>

datatype wstate =
    WStart
  | WLinks page_result "string list" "string list"
  | WDone "page_result option" "string list"

fun anchor_hrefs :: "tag list \<Rightarrow> string list" where
  "anchor_hrefs [] = []"
| "anchor_hrefs (Anchor (Some h) # ts) = h # anchor_hrefs ts"
| "anchor_hrefs (t # ts) = anchor_hrefs ts"

text \<open>
  Lines 70 to 89: the budget test, the robots test, the GET and the analysis of the page.
  Either \<^verbatim>\<open>process_page\<close> returns from there (\<open>Early\<close>: with \<^verbatim>\<open>None\<close> when the budget is
  used up, with the untouched \<^verbatim>\<open>result\<close> when robots deny the URL or the GET raises and
  the handler of line 108 runs), or it enters the link loop with the filled \<^verbatim>\<open>result\<close>
  and the \<^verbatim>\<open>href\<close> values of the page (\<open>Parsed\<close>). Beside it: the URLs a GET was sent
  to, and what was printed.
\<close>

datatype started = Early "page_result option" | Parsed page_result "string list"

definition start_page ::
  "args \<Rightarrow> network \<Rightarrow> robot_file_parser \<Rightarrow> string \<Rightarrow> int \<Rightarrow> started \<times> string list \<times> line list" where
  "start_page a net parser url count =
     (if count \<ge> max_pages a then (Early None, [], [])
      else if \<not> can_fetch_url url parser then (Early (Some empty_result), [], [])
      else (case http_get net url of
              Raised \<Rightarrow> (Early (Some empty_result), [url], [ErrorCrawling url])
            | Returned soup \<Rightarrow>
                (Parsed \<lparr>spelling_issues = misspelled soup,
                         broken_links = check_broken_links net (tags soup) url\<rparr>
                        (anchor_hrefs (tags soup)),
                 [url], [])))"

text \<open>Lines 93 to 97: one round of the link loop.\<close>

definition link_step :: "args \<Rightarrow> network \<Rightarrow> string \<Rightarrow> string set \<Rightarrow> string list \<Rightarrow> string \<Rightarrow> string list" where
  "link_step a net url seen new_links href =
     (let full_url = urljoin net url href in
        if is_internal_link (netloc net) (base_url a) full_url \<and> full_url \<notin> seen
        then new_links @ [full_url]
        else new_links)"

text \<open>
  \<^verbatim>\<open>process_page(url, base_url, rp, max_pages)\<close> run without interruption, with the
  globals \<^verbatim>\<open>visited\<close> and \<^verbatim>\<open>crawl_count\<close> as arguments: the returned pair, the new
  \<^verbatim>\<open>crawl_count\<close>, the URLs a GET was sent to, and the printed lines.
\<close>

fun link_loop :: "args \<Rightarrow> network \<Rightarrow> string \<Rightarrow> string set \<Rightarrow> string list \<Rightarrow> string list \<Rightarrow> string list" where
  "link_loop a net url seen new_links [] = new_links"
| "link_loop a net url seen new_links (h # hs) =
     link_loop a net url seen (link_step a net url seen new_links h) hs"

definition process_page ::
  "args \<Rightarrow> network \<Rightarrow> robot_file_parser \<Rightarrow> string \<Rightarrow> string set \<Rightarrow> int
     \<Rightarrow> (page_result option \<times> string list) \<times> int \<times> string list \<times> line list" where
  "process_page a net parser url seen count =
     (case start_page a net parser url count of
        (Early r, gets, out) \<Rightarrow> ((r, []), count, gets, out)
      | (Parsed result hrefs, gets, out) \<Rightarrow>
          ((Some result, link_loop a net url seen [] hrefs),
           count + 1, gets, out @ [Crawled (count + 1) (max_pages a) url]))"

section \<open>The crawl\<close>

text \<open>
  The state of a run of \<^verbatim>\<open>crawl\<close>: the module's globals \<^verbatim>\<open>visited\<close> and \<^verbatim>\<open>crawl_count\<close>,
  the locals \<^verbatim>\<open>report\<close>, \<^verbatim>\<open>to_visit\<close>, \<^verbatim>\<open>rp\<close> and \<^verbatim>\<open>futures\<close> (each future with its URL,
  the state of its worker, and whether the loop of line 140 has taken it), the place the
  main thread is at, and two logs: the page URLs a GET was sent to, and the printed lines.
\<close>

datatype pc = OuterCheck | InnerCheck | InnerBody | Collecting | Finished | Failed

record future =
  url_of :: string
  worker :: wstate
  collected :: bool

record state =
  visited :: "string set"
  crawl_count :: int
  report :: "string \<rightharpoonup> page_result"
  to_visit :: "string list"
  rp :: robot_file_parser
  futures :: "future list"
  pc :: pc
  fetched :: "string list"
  printed :: "line list"

text \<open>
  Lines 117 to 126, from given values of the two globals. A raise of \<^verbatim>\<open>rp.read()\<close> is
  swallowed and leaves the new parser as it was.
\<close>

definition crawl_init :: "args \<Rightarrow> network \<Rightarrow> string set \<Rightarrow> int \<Rightarrow> state" where
  "crawl_init a net seen count =
     \<lparr>visited = seen, crawl_count = count, report = Map.empty, to_visit = [base_url a],
      rp = (case parser_read (robots_read net (urljoin net (base_url a) ''/robots.txt'')) new_parser of
              Raised \<Rightarrow> new_parser
            | Returned p \<Rightarrow> p),
      futures = [], pc = OuterCheck, fetched = [], printed = []\<rparr>"

text \<open>Lines 148 to 150: the loop that appends the new links to \<^verbatim>\<open>to_visit\<close>.\<close>

fun add_links :: "int \<Rightarrow> string set \<Rightarrow> string list \<Rightarrow> string list \<Rightarrow> string list" where
  "add_links mp seen frontier [] = frontier"
| "add_links mp seen frontier (l # ls) =
     add_links mp seen
       (if l \<notin> seen \<and> int (card seen) + int (length frontier) < mp then frontier @ [l]
        else frontier) ls"

text \<open>Lines 141 to 150: the main thread takes the completed future \<open>i\<close>.\<close>

definition collect :: "args \<Rightarrow> nat \<Rightarrow> state \<Rightarrow> state" where
  "collect a i s =
     (let f = futures s ! i;
          s' = s\<lparr>futures := (futures s)[i := f\<lparr>collected := True\<rparr>]\<rparr>
      in case worker f of
           WDone (Some page_result) new_links \<Rightarrow>
             s'\<lparr>report := (report s)(url_of f \<mapsto> page_result),
                to_visit := add_links (max_pages a) (visited s) (to_visit s) new_links\<rparr>
         | _ \<Rightarrow> s')"

text \<open>One atomic step of worker \<open>i\<close>.\<close>

definition work :: "args \<Rightarrow> network \<Rightarrow> nat \<Rightarrow> state \<Rightarrow> state" where
  "work a net i s =
     (let f = futures s ! i; url = url_of f in
      case worker f of
        WStart \<Rightarrow>
          (case start_page a net (rp s) url (crawl_count s) of
             (st, gets, out) \<Rightarrow>
               s\<lparr>futures := (futures s)[i := f\<lparr>worker :=
                    (case st of Early r \<Rightarrow> WDone r []
                              | Parsed result hrefs \<Rightarrow> WLinks result [] hrefs)\<rparr>],
                 fetched := fetched s @ gets,
                 printed := printed s @ out\<rparr>)
      | WLinks result new_links (h # hs) \<Rightarrow>
          s\<lparr>futures := (futures s)[i := f\<lparr>worker :=
               WLinks result (link_step a net url (visited s) new_links h) hs\<rparr>]\<rparr>
      | WLinks result new_links [] \<Rightarrow>
          s\<lparr>crawl_count := crawl_count s + 1,
            printed := printed s @ [Crawled (crawl_count s + 1) (max_pages a) url],
            futures := (futures s)[i := f\<lparr>worker := WDone (Some result) new_links\<rparr>]\<rparr>
      | WDone r l \<Rightarrow> s)"

definition is_done :: "wstate \<Rightarrow> bool" where
  "is_done w = (case w of WDone r l \<Rightarrow> True | _ \<Rightarrow> False)"

text \<open>One step of the main thread outside the loop of line 140.\<close>

definition main_step :: "args \<Rightarrow> state \<Rightarrow> state option" where
  "main_step a s =
     (case pc s of
        OuterCheck \<Rightarrow>
          if to_visit s \<noteq> [] \<and> crawl_count s < max_pages a
          then (if max_workers a \<le> 0 then Some (s\<lparr>futures := [], pc := Failed\<rparr>)
                else Some (s\<lparr>futures := [], pc := InnerCheck\<rparr>))
          else Some (s\<lparr>pc := Finished\<rparr>)
      | InnerCheck \<Rightarrow>
          if to_visit s \<noteq> [] \<and> int (length (futures s)) < max_workers a
             \<and> crawl_count s < max_pages a
          then Some (s\<lparr>pc := InnerBody\<rparr>)
          else Some (s\<lparr>pc := Collecting\<rparr>)
      | InnerBody \<Rightarrow>
          (case to_visit s of
             [] \<Rightarrow> Some (s\<lparr>pc := Failed\<rparr>)
           | url # rest \<Rightarrow>
               if url \<in> visited s then Some (s\<lparr>to_visit := rest, pc := InnerCheck\<rparr>)
               else Some (s\<lparr>to_visit := rest, visited := insert url (visited s),
                            futures := futures s @ [\<lparr>url_of = url, worker = WStart, collected = False\<rparr>],
                            pc := InnerCheck\<rparr>))
      | Collecting \<Rightarrow>
          if list_all collected (futures s) then Some (s\<lparr>pc := OuterCheck\<rparr>) else None
      | Finished \<Rightarrow> None
      | Failed \<Rightarrow> None)"

text \<open>
  The interleavings: at each moment the main thread moves (\<open>Main\<close>), or takes a completed
  future that it has not taken yet (\<open>Collect i\<close>, in any order, as \<^verbatim>\<open>as_completed\<close>
  yields them), or a worker that has not returned moves (\<open>Work i\<close>).
\<close>

datatype action = Main | Collect nat | Work nat

fun step :: "args \<Rightarrow> network \<Rightarrow> action \<Rightarrow> state \<Rightarrow> state option" where
  "step a net Main s = main_step a s"
| "step a net (Collect i) s =
     (if pc s = Collecting \<and> i < length (futures s) \<and> is_done (worker (futures s ! i))
         \<and> \<not> collected (futures s ! i)
      then Some (collect a i s) else None)"
| "step a net (Work i) s =
     (if i < length (futures s) \<and> \<not> is_done (worker (futures s ! i))
      then Some (work a net i s) else None)"

fun exec :: "args \<Rightarrow> network \<Rightarrow> action list \<Rightarrow> state \<Rightarrow> state option" where
  "exec a net [] s = Some s"
| "exec a net (x # xs) s = (case step a net x s of None \<Rightarrow> None | Some s' \<Rightarrow> exec a net xs s')"

section \<open>The export\<close>

text \<open>Line 202 of \<^verbatim>\<open>export_report\<close>: \<^verbatim>\<open>total_pages = len(summary)\<close>.\<close>

definition total_pages :: "(string \<rightharpoonup> page_result) \<Rightarrow> nat" where
  "total_pages summary = card (dom summary)"

section \<open>A small site\<close>

text \<open>
  A site of three pages for the concrete runs below. The front page carries one unknown
  word, two links into the same page that differ in the fragment only, one link to another
  host and one image that is missing; \<^verbatim>\<open>robots.txt\<close> answers 404. \<open>demo_urljoin\<close> is
  \<^verbatim>\<open>urljoin\<close> on the references that occur here: an absolute \<^verbatim>\<open>http\<close> URL is kept, a path
  that starts with a slash is put behind the origin of the site.
\<close>

definition demo_urljoin :: "string \<Rightarrow> string \<Rightarrow> string" where
  "demo_urljoin base h = (if starts_with ''http://'' h then h else ''http://x.test'' @ h)"

definition demo_get :: "string \<Rightarrow> page outcome" where
  "demo_get u =
     (if u = ''http://x.test/'' then
        Returned \<lparr>misspelled = [(''Helo'', Some ''Hello'')],
                  tags = [Anchor (Some ''/a#top''), Anchor (Some ''/a#end''),
                          Anchor (Some ''http://other.test/x''), Image (Some ''/missing.png'')]\<rparr>
      else if u = ''http://x.test/a#top'' \<or> u = ''http://x.test/a#end'' then
        Returned \<lparr>misspelled = [], tags = [Anchor (Some ''/'')]\<rparr>
      else Raised)"

definition demo_head :: "string \<Rightarrow> nat outcome" where
  "demo_head u = (if u = ''http://x.test/missing.png'' then Returned 404 else Returned 200)"

definition demo_net :: network where
  "demo_net = \<lparr>urljoin = demo_urljoin, netloc = authority, http_get = demo_get,
               http_head = demo_head, robots_read = (\<lambda>u. HttpError 404)\<rparr>"

definition demo_args :: args where
  "demo_args = \<lparr>base_url = ''http://x.test/'', max_pages = 3, max_workers = 2\<rparr>"

definition demo_run :: "action list" where
  "demo_run =
     [Main, Main, Main, Main, Work 0, Work 0, Work 0, Work 0, Work 0, Collect 0,
      Main, Main, Main, Main, Main, Main, Main,
      Work 1, Work 0, Work 1, Work 1, Work 0, Work 0, Collect 1, Collect 0, Main, Main]"

definition demo_final :: state where
  "demo_final =
     \<lparr>visited = {''http://x.test/'', ''http://x.test/a#top'', ''http://x.test/a#end''},
      crawl_count = 3,
      report = [''http://x.test/'' \<mapsto>
                  \<lparr>spelling_issues = [(''Helo'', Some ''Hello'')],
                   broken_links = [''http://x.test/missing.png'']\<rparr>,
                ''http://x.test/a#end'' \<mapsto> \<lparr>spelling_issues = [], broken_links = []\<rparr>,
                ''http://x.test/a#top'' \<mapsto> \<lparr>spelling_issues = [], broken_links = []\<rparr>],
      to_visit = [],
      rp = \<lparr>disallow_all = False, allow_all = True, last_checked = False,
            entries = (\<lambda>u. Returned True)\<rparr>,
      futures =
        [\<lparr>url_of = ''http://x.test/a#top'',
          worker = WDone (Some \<lparr>spelling_issues = [], broken_links = []\<rparr>) [],
          collected = True\<rparr>,
         \<lparr>url_of = ''http://x.test/a#end'',
          worker = WDone (Some \<lparr>spelling_issues = [], broken_links = []\<rparr>) [],
          collected = True\<rparr>],
      pc = Finished,
      fetched = [''http://x.test/'', ''http://x.test/a#end'', ''http://x.test/a#top''],
      printed = [Crawled 1 3 ''http://x.test/'', Crawled 2 3 ''http://x.test/a#end'',
                 Crawled 3 3 ''http://x.test/a#top'']\<rparr>"

section \<open>Invariants\<close>

text \<open>The URLs of the futures of the current batch.\<close>

definition urls :: "state \<Rightarrow> string set" where
  "urls s = set (map url_of (futures s))"

text \<open>
  The budget invariant, relative to the value \<open>V0\<close> that \<^verbatim>\<open>visited\<close> had when \<^verbatim>\<open>crawl\<close>
  was called: the keys of the report and the URLs of the futures were put into
  \<^verbatim>\<open>visited\<close> by this run, and what this run has put there, together with what waits in
  \<^verbatim>\<open>to_visit\<close>, stays within \<^verbatim>\<open>max_pages\<close>.
\<close>

definition budget_inv :: "args \<Rightarrow> string set \<Rightarrow> state \<Rightarrow> bool" where
  "budget_inv a V0 s =
     (finite (visited s) \<and> V0 \<subseteq> visited s \<and> dom (report s) \<subseteq> visited s - V0
      \<and> urls s \<subseteq> visited s - V0
      \<and> int (card (visited s - V0)) + int (length (to_visit s)) \<le> max_pages a)"

text \<open>
  What a run keeps true of the two globals, relative to the values \<open>V0\<close> and \<open>c0\<close> they
  had when \<^verbatim>\<open>crawl\<close> was called: neither is ever reset, and the keys of the report, the
  URLs of the futures and the URLs a GET was sent to were put into \<^verbatim>\<open>visited\<close> by this run.
\<close>

definition run_inv :: "string set \<Rightarrow> int \<Rightarrow> state \<Rightarrow> bool" where
  "run_inv V0 c0 s =
     (V0 \<subseteq> visited s \<and> c0 \<le> crawl_count s \<and> dom (report s) \<subseteq> visited s - V0
      \<and> urls s \<subseteq> visited s - V0 \<and> set (fetched s) \<subseteq> visited s - V0)"

text \<open>
  A run that starts with the budget used up: the main thread can only leave the outer
  loop, and no worker exists.
\<close>

definition idle_inv :: "args \<Rightarrow> state \<Rightarrow> bool" where
  "idle_inv a s =
     ((pc s = OuterCheck \<or> pc s = Finished) \<and> report s = Map.empty \<and> futures s = []
      \<and> fetched s = [] \<and> max_pages a \<le> crawl_count s)"

text \<open>The state of the run on the small site after the first batch has been collected.\<close>

definition demo_middle :: state where
  "demo_middle =
     demo_final\<lparr>visited := {''http://x.test/''}, crawl_count := 1,
        report := [''http://x.test/'' \<mapsto>
                  \<lparr>spelling_issues = [(''Helo'', Some ''Hello'')],
                   broken_links = [''http://x.test/missing.png'']\<rparr>],
        to_visit := [''http://x.test/a#top'', ''http://x.test/a#end''],
        futures := [\<lparr>url_of = ''http://x.test/'',
                     worker = WDone (Some \<lparr>spelling_issues = [(''Helo'', Some ''Hello'')],
                                         broken_links = [''http://x.test/missing.png'']\<rparr>)
                                [''http://x.test/a#top'', ''http://x.test/a#end''],
                     collected = True\<rparr>],
        pc := Collecting,
        fetched := [''http://x.test/''],
        printed := [Crawled 1 3 ''http://x.test/'']\<rparr>"

text \<open>
  The identity of a crawl target in the words of the specification: the URL with the
  fragment stripped.
\<close>

definition spec_target :: "string \<Rightarrow> string" where
  "spec_target u = takeWhile (\<lambda>c. c \<noteq> CHR ''#'') u"

text \<open>
  No URL is handed out twice: the URLs of the futures of a batch differ from each other,
  the log of GETs has no repetition, and a worker that has not started has not sent its GET.
\<close>

definition once_inv :: "state \<Rightarrow> bool" where
  "once_inv s =
     (distinct (fetched s) \<and> distinct (map url_of (futures s))
      \<and> set (fetched s) \<subseteq> visited s \<and> urls s \<subseteq> visited s
      \<and> (\<forall>j < length (futures s). worker (futures s ! j) = WStart
            \<longrightarrow> url_of (futures s ! j) \<notin> set (fetched s)))"

text \<open>
  Two runs on the small site for pages that are not analysed: one from a seed whose GET
  raises, one with a \<^verbatim>\<open>robots.txt\<close> answered by 403, which denies every page. Each state is
  the one the main thread has reached when the seed has been submitted and the loop of
  line 140 waits for its future.
\<close>

definition gone_args :: args where
  "gone_args = \<lparr>base_url = ''http://x.test/gone'', max_pages = 3, max_workers = 2\<rparr>"

definition gone_state :: state where
  "gone_state =
     (crawl_init gone_args demo_net {} 0)
       \<lparr>visited := {''http://x.test/gone''}, to_visit := [],
        futures := [\<lparr>url_of = ''http://x.test/gone'', worker = WStart, collected = False\<rparr>],
        pc := Collecting\<rparr>"

definition deny_net :: network where
  "deny_net = demo_net\<lparr>robots_read := (\<lambda>u. HttpError 403)\<rparr>"

definition deny_state :: state where
  "deny_state =
     (crawl_init demo_args deny_net {} 0)
       \<lparr>visited := {''http://x.test/''}, to_visit := [],
        futures := [\<lparr>url_of = ''http://x.test/'', worker = WStart, collected = False\<rparr>],
        pc := Collecting\<rparr>"

text \<open>
  The small site behind a \<^verbatim>\<open>robots.txt\<close> that cannot be fetched: \<^verbatim>\<open>urlopen\<close> raises in
  \<^verbatim>\<open>rp.read()\<close>. A run of the crawl to its end, and the state it ends in.
\<close>

definition unreachable_net :: network where
  "unreachable_net = demo_net\<lparr>robots_read := (\<lambda>u. ReadRaised)\<rparr>"

definition unreachable_run :: "action list" where
  "unreachable_run = [Main, Main, Main, Main, Work 0, Collect 0, Main, Main]"

definition unreachable_final :: state where
  "unreachable_final =
     \<lparr>visited = {''http://x.test/''}, crawl_count = 0,
      report = [''http://x.test/'' \<mapsto> empty_result], to_visit = [], rp = new_parser,
      futures = [\<lparr>url_of = ''http://x.test/'', worker = WDone (Some empty_result) [], collected = True\<rparr>],
      pc = Finished, fetched = [], printed = []\<rparr>"











section \<open>Properties\<close>

subsection \<open>Runs and single steps\<close>

lemma exec_invariant:
  assumes "exec a net acts s0 = Some s" and "P s0"
    and "\<And>x s s'. P s \<Longrightarrow> step a net x s = Some s' \<Longrightarrow> P s'"
  shows "P s"
  using assms(1,2)
proof (induction acts arbitrary: s0)
  case Nil then show ?case by simp
next
  case (Cons x xs)
  then show ?case using assms(3) by (auto split: option.splits)
qed

lemma exec_append:
  "exec a net (xs @ ys) s = (case exec a net xs s of None \<Rightarrow> None | Some s' \<Rightarrow> exec a net ys s')"
  by (induction xs arbitrary: s) (auto split: option.splits)

lemma urls_update_worker [simp]: "map url_of (fs[i := (fs ! i)\<lparr>worker := w\<rparr>]) = map url_of fs"
  by (cases "i < length fs") (simp_all add: list_eq_iff_nth_eq nth_list_update)

lemma urls_update_collected [simp]: "map url_of (fs[i := (fs ! i)\<lparr>collected := b\<rparr>]) = map url_of fs"
  by (cases "i < length fs") (simp_all add: list_eq_iff_nth_eq nth_list_update)

lemma demo_authority:
  "authority ''http://x.test/'' = ''x.test''"
  "authority ''http://x.test/a#top'' = ''x.test''"
  "authority ''http://x.test/a#end'' = ''x.test''"
  "authority ''http://other.test/x'' = ''other.test''"
  by code_simp+

lemmas demo_defs = demo_urljoin_def demo_get_def demo_head_def demo_net_def demo_args_def
  crawl_init_def parser_read_def new_parser_def main_step_def work_def collect_def
  start_page_def can_fetch_url_def parser_can_fetch_def is_done_def link_step_def
  is_internal_link_def demo_authority
  check_broken_links_def tag_attr_def starts_with_def empty_result_def

lemma demo_exec:
  "exec demo_args demo_net demo_run (crawl_init demo_args demo_net {} 0) = Some demo_final"
  unfolding demo_run_def demo_final_def
  by (simp add: demo_defs Let_def insert_commute)

lemma urls_nth: "i < length (futures s) \<Longrightarrow> url_of (futures s ! i) \<in> urls s"
  by (simp add: urls_def)

lemma urls_updates [simp]:
  "urls (s\<lparr>pc := p\<rparr>) = urls s" "urls (s\<lparr>to_visit := t\<rparr>) = urls s"
  "urls (s\<lparr>visited := v\<rparr>) = urls s" "urls (s\<lparr>futures := fs\<rparr>) = set (map url_of fs)"
  by (simp_all add: urls_def)

lemma work_fields [simp]:
  "visited (work a net i s) = visited s" "report (work a net i s) = report s"
  "to_visit (work a net i s) = to_visit s" "pc (work a net i s) = pc s"
  "rp (work a net i s) = rp s"
  "map url_of (futures (work a net i s)) = map url_of (futures s)"
  by (auto simp: work_def Let_def split: wstate.splits list.splits prod.splits started.splits)

lemma collect_fields [simp]:
  "visited (collect a i s) = visited s" "crawl_count (collect a i s) = crawl_count s"
  "pc (collect a i s) = pc s" "rp (collect a i s) = rp s"
  "fetched (collect a i s) = fetched s" "printed (collect a i s) = printed s"
  "map url_of (futures (collect a i s)) = map url_of (futures s)"
  by (auto simp: collect_def Let_def split: wstate.splits option.splits)

lemma urls_work_collect [simp]:
  "urls (work a net i s) = urls s" "urls (collect a i s) = urls s"
  by (simp_all only: urls_def work_fields collect_fields)

lemma main_stepE:
  assumes "main_step a s = Some s'"
  obtains
    (finish) "pc s = OuterCheck" "to_visit s = [] \<or> max_pages a \<le> crawl_count s"
      "s' = s\<lparr>pc := Finished\<rparr>"
  | (no_pool) "pc s = OuterCheck" "to_visit s \<noteq> []" "crawl_count s < max_pages a"
      "max_workers a \<le> 0" "s' = s\<lparr>futures := [], pc := Failed\<rparr>"
  | (batch) "pc s = OuterCheck" "to_visit s \<noteq> []" "crawl_count s < max_pages a"
      "0 < max_workers a" "s' = s\<lparr>futures := [], pc := InnerCheck\<rparr>"
  | (enter) "pc s = InnerCheck" "to_visit s \<noteq> []" "int (length (futures s)) < max_workers a"
      "crawl_count s < max_pages a" "s' = s\<lparr>pc := InnerBody\<rparr>"
  | (leave) "pc s = InnerCheck"
      "to_visit s = [] \<or> max_workers a \<le> int (length (futures s)) \<or> max_pages a \<le> crawl_count s"
      "s' = s\<lparr>pc := Collecting\<rparr>"
  | (pop_empty) "pc s = InnerBody" "to_visit s = []" "s' = s\<lparr>pc := Failed\<rparr>"
  | (skip) u rest where "pc s = InnerBody" "to_visit s = u # rest" "u \<in> visited s"
      "s' = s\<lparr>to_visit := rest, pc := InnerCheck\<rparr>"
  | (submit) u rest where "pc s = InnerBody" "to_visit s = u # rest" "u \<notin> visited s"
      "s' = s\<lparr>to_visit := rest, visited := insert u (visited s),
               futures := futures s @ [\<lparr>url_of = u, worker = WStart, collected = False\<rparr>],
               pc := InnerCheck\<rparr>"
  | (next_batch) "pc s = Collecting" "list_all collected (futures s)" "s' = s\<lparr>pc := OuterCheck\<rparr>"
  using assms unfolding main_step_def
  by (cases "pc s"; cases "to_visit s") (auto split: if_splits)

subsection \<open>The budget bound\<close>

lemma add_links_budget:
  "finite V \<Longrightarrow> int (card (V - V0)) + int (length tv) \<le> mp
     \<Longrightarrow> int (card (V - V0)) + int (length (add_links mp V tv ls)) \<le> mp"
proof (induction ls arbitrary: tv)
  case Nil then show ?case by simp
next
  case (Cons l ls)
  have "card (V - V0) \<le> card V" using Cons.prems(1) by (simp add: card_mono)
  then show ?case using Cons by (auto intro!: Cons.IH)
qed

lemma budget_inv_main:
  assumes "budget_inv a V0 s" "main_step a s = Some s'"
  shows "budget_inv a V0 s'"
  using assms(2)
proof (cases rule: main_stepE)
  case (submit u rest)
  have fin: "finite (visited s)" and sub: "V0 \<subseteq> visited s" using assms(1) by (auto simp: budget_inv_def)
  have "u \<notin> V0" using submit(3) sub by auto
  then have eq: "insert u (visited s) - V0 = insert u (visited s - V0)" by auto
  then have "card (insert u (visited s) - V0) = Suc (card (visited s - V0))"
    using fin submit(3) by simp
  then show ?thesis using assms(1) submit \<open>u \<notin> V0\<close> unfolding budget_inv_def
    by (simp add: eq urls_def) blast
qed (use assms(1) in \<open>simp_all add: budget_inv_def\<close>)

lemma budget_inv_collect:
  assumes "budget_inv a V0 s" "i < length (futures s)"
  shows "budget_inv a V0 (collect a i s)"
proof -
  have u: "url_of (futures s ! i) \<in> visited s - V0"
    using assms urls_nth[of i s] by (auto simp: budget_inv_def)
  have r: "dom (report (collect a i s)) \<subseteq> insert (url_of (futures s ! i)) (dom (report s))"
    by (auto simp: collect_def Let_def split: wstate.splits option.splits)
  have t: "int (card (visited s - V0)) + int (length (to_visit (collect a i s))) \<le> max_pages a"
    using assms(1) add_links_budget[of "visited s" V0 "to_visit s" "max_pages a"]
    by (auto simp: collect_def Let_def budget_inv_def split: wstate.splits option.splits)
  show ?thesis using assms(1) u r t unfolding budget_inv_def by simp blast
qed

lemma budget_inv_step:
  assumes "budget_inv a V0 s" "step a net x s = Some s'"
  shows "budget_inv a V0 s'"
proof (cases x)
  case Main
  then show ?thesis using assms budget_inv_main by simp
next
  case (Collect i)
  then show ?thesis using assms budget_inv_collect by (auto split: if_splits)
next
  case (Work i)
  then have "s' = work a net i s" using assms(2) by (simp split: if_splits)
  then show ?thesis using assms(1) by (simp add: budget_inv_def)
qed

lemma budget_inv_init:
  "finite V \<Longrightarrow> 0 < max_pages a \<Longrightarrow> budget_inv a V (crawl_init a net V c)"
  by (simp add: budget_inv_def crawl_init_def urls_def)

text \<open>
  C1. In a run of \<^verbatim>\<open>crawl\<close> with a positive \<^verbatim>\<open>max_pages\<close>, started with any finite
  \<^verbatim>\<open>visited\<close> and any \<^verbatim>\<open>crawl_count\<close>, the report has at most \<^verbatim>\<open>max_pages\<close> entries in
  every state the run passes through, under every interleaving of the main thread and
  the workers; the state in which \<^verbatim>\<open>crawl\<close> returns is one of them.
\<close>

theorem report_within_budget:
  assumes "0 < max_pages a" and "finite seen"
    and "exec a net acts (crawl_init a net seen count) = Some s"
  shows "int (card (dom (report s))) \<le> max_pages a"
proof -
  have "budget_inv a seen s"
    using exec_invariant[where P="budget_inv a seen", OF assms(3)] budget_inv_init[OF assms(2,1)] budget_inv_step
    by blast
  then have "card (dom (report s)) \<le> card (visited s - seen)"
    by (auto simp: budget_inv_def intro: card_mono)
  then show ?thesis using \<open>budget_inv a seen s\<close> by (auto simp: budget_inv_def)
qed

theorem report_within_budget_witness:
  "0 < max_pages demo_args \<and> finite ({} :: string set)
   \<and> exec demo_args demo_net demo_run (crawl_init demo_args demo_net {} 0) = Some demo_final
   \<and> pc demo_final = Finished
   \<and> card (dom (report demo_final)) = 3
   \<and> int (card (dom (report demo_final))) \<le> max_pages demo_args"
proof -
  have p: "0 < max_pages demo_args" by (simp add: demo_args_def)
  have f: "finite ({} :: string set)" by simp
  have "int (card (dom (report demo_final))) \<le> max_pages demo_args"
    using report_within_budget [OF p f demo_exec] .
  moreover have "pc demo_final = Finished" "card (dom (report demo_final)) = 3"
    by (simp_all add: demo_final_def)
  ultimately show ?thesis using p demo_exec by simp
qed

subsection \<open>Case analysis of the steps\<close>

lemma workE:
  assumes "\<not> is_done (worker (futures s ! i))"
  obtains
    (start) st gets out where "worker (futures s ! i) = WStart"
      "start_page a net (rp s) (url_of (futures s ! i)) (crawl_count s) = (st, gets, out)"
      "work a net i s =
         s\<lparr>futures := (futures s)[i := (futures s ! i)\<lparr>worker :=
              (case st of Early r \<Rightarrow> WDone r [] | Parsed result hrefs \<Rightarrow> WLinks result [] hrefs)\<rparr>],
           fetched := fetched s @ gets, printed := printed s @ out\<rparr>"
  | (link) result new_links h hs where "worker (futures s ! i) = WLinks result new_links (h # hs)"
      "work a net i s =
         s\<lparr>futures := (futures s)[i := (futures s ! i)\<lparr>worker :=
              WLinks result (link_step a net (url_of (futures s ! i)) (visited s) new_links h) hs\<rparr>]\<rparr>"
  | (count) result new_links where "worker (futures s ! i) = WLinks result new_links []"
      "work a net i s =
         s\<lparr>crawl_count := crawl_count s + 1,
           printed := printed s @ [Crawled (crawl_count s + 1) (max_pages a) (url_of (futures s ! i))],
           futures := (futures s)[i := (futures s ! i)\<lparr>worker := WDone (Some result) new_links\<rparr>]\<rparr>"
proof (cases "worker (futures s ! i)")
  case WStart
  obtain st gets out where
    "start_page a net (rp s) (url_of (futures s ! i)) (crawl_count s) = (st, gets, out)"
    by (cases "start_page a net (rp s) (url_of (futures s ! i)) (crawl_count s)") auto
  then show ?thesis using WStart start by (simp add: work_def Let_def)
next
  case (WLinks result new_links hrefs)
  then show ?thesis using link count by (cases hrefs) (simp_all add: work_def Let_def)
next
  case (WDone r l)
  then show ?thesis using assms by (simp add: is_done_def)
qed

lemma collect_cases:
  obtains
    (keep) page_result new_links where "worker (futures s ! i) = WDone (Some page_result) new_links"
      "collect a i s =
         s\<lparr>futures := (futures s)[i := (futures s ! i)\<lparr>collected := True\<rparr>],
           report := (report s)(url_of (futures s ! i) \<mapsto> page_result),
           to_visit := add_links (max_pages a) (visited s) (to_visit s) new_links\<rparr>"
  | (drop) "\<And>page_result new_links. worker (futures s ! i) \<noteq> WDone (Some page_result) new_links"
      "collect a i s = s\<lparr>futures := (futures s)[i := (futures s ! i)\<lparr>collected := True\<rparr>]\<rparr>"
  by (cases "worker (futures s ! i)"; cases "case worker (futures s ! i) of WDone r l \<Rightarrow> r | _ \<Rightarrow> None")
     (auto simp: collect_def Let_def)

lemma stepE:
  assumes "step a net x s = Some s'"
  obtains
    (main) "x = Main" "main_step a s = Some s'"
  | (collect) i where "x = Collect i" "pc s = Collecting" "i < length (futures s)"
      "is_done (worker (futures s ! i))" "\<not> collected (futures s ! i)" "s' = collect a i s"
  | (work) i where "x = Work i" "i < length (futures s)" "\<not> is_done (worker (futures s ! i))"
      "s' = work a net i s"
  using assms by (cases x) (auto split: if_splits)

subsection \<open>The globals are never reset\<close>

lemma start_page_gets:
  "start_page a net p u c = (st, gets, out) \<Longrightarrow> set gets \<subseteq> {u}"
  by (auto simp: start_page_def split: if_splits outcome.splits)

lemma urls_more_updates [simp]:
  "urls (s\<lparr>fetched := g\<rparr>) = urls s" "urls (s\<lparr>printed := l\<rparr>) = urls s"
  "urls (s\<lparr>crawl_count := c\<rparr>) = urls s" "urls (s\<lparr>report := r\<rparr>) = urls s"
  by (simp_all add: urls_def)

lemma work_fetched:
  "set (fetched (work a net i s)) \<subseteq> insert (url_of (futures s ! i)) (set (fetched s))"
proof (cases "is_done (worker (futures s ! i))")
  case True
  then show ?thesis by (auto simp: work_def is_done_def split: wstate.splits)
next
  case False
  then show ?thesis
  proof (cases rule: workE[of s i a net])
    case (start st gets out)
    then show ?thesis using start_page_gets[OF start(2)] by auto
  qed auto
qed

lemma work_count:
  "crawl_count s \<le> crawl_count (work a net i s)"
  by (auto simp: work_def Let_def split: wstate.splits list.splits prod.splits)

lemma run_inv_step:
  assumes "run_inv V0 c0 s" "step a net x s = Some s'"
  shows "run_inv V0 c0 s'"
  using assms(2)
proof (cases rule: stepE)
  case main
  from main(2) show ?thesis
  proof (cases rule: main_stepE)
    case (submit u rest)
    then show ?thesis using assms(1) unfolding run_inv_def by (simp add: urls_def) blast
  qed (use assms(1) in \<open>simp_all add: run_inv_def\<close>)
next
  case (collect i)
  have u: "url_of (futures s ! i) \<in> visited s - V0"
    using assms(1) collect(3) urls_nth[of i s] by (auto simp: run_inv_def)
  have "dom (report (collect a i s)) \<subseteq> insert (url_of (futures s ! i)) (dom (report s))"
    by (cases rule: collect_cases[of s i a]) auto
  then show ?thesis using assms(1) u collect(6) unfolding run_inv_def by simp blast
next
  case (work i)
  have u: "url_of (futures s ! i) \<in> visited s - V0"
    using assms(1) work(2) urls_nth[of i s] by (auto simp: run_inv_def)
  show ?thesis
    using assms(1) u work(4) work_fetched[of a net i s] work_count[of s a net i]
    unfolding run_inv_def by simp blast
qed

lemma run_inv_init: "run_inv V c (crawl_init a net V c)"
  by (simp add: run_inv_def crawl_init_def urls_def)

lemma run_inv_exec:
  "exec a net acts (crawl_init a net V c) = Some s \<Longrightarrow> run_inv V c s"
  using exec_invariant[where P="run_inv V c"] run_inv_init run_inv_step by blast

subsection \<open>A used-up budget\<close>

lemma idle_inv_step:
  assumes "idle_inv a s" "step a net x s = Some s'"
  shows "idle_inv a s'"
  using assms(2)
proof (cases rule: stepE)
  case main
  from main(2) show ?thesis
    by (cases rule: main_stepE) (use assms(1) in \<open>auto simp: idle_inv_def\<close>)
qed (use assms(1) in \<open>auto simp: idle_inv_def\<close>)

lemma idle_inv_exec:
  assumes "max_pages a \<le> count" "exec a net acts (crawl_init a net seen count) = Some s"
  shows "idle_inv a s"
proof -
  have "idle_inv a (crawl_init a net seen count)"
    using assms(1) by (simp add: idle_inv_def crawl_init_def)
  then show ?thesis
    using exec_invariant[where P="idle_inv a", OF assms(2)] idle_inv_step by blast
qed

text \<open>
  C8. With \<^verbatim>\<open>max_pages = 0\<close> (and \<^verbatim>\<open>crawl_count\<close> not negative, as it never is) the report
  stays empty and no GET is sent to any page in every state of the run, and the first step
  of the main thread leaves the loop, so \<^verbatim>\<open>crawl\<close> returns the empty report. The robots
  file is read before, in \<open>crawl_init\<close>.
\<close>

theorem zero_budget_empty_report:
  assumes "max_pages a = 0" and "0 \<le> count"
    and "exec a net acts (crawl_init a net seen count) = Some s"
  shows "report s = Map.empty \<and> fetched s = []
         \<and> exec a net [Main] (crawl_init a net seen count)
             = Some ((crawl_init a net seen count)\<lparr>pc := Finished\<rparr>)"
proof -
  have "idle_inv a s" using idle_inv_exec[OF _ assms(3)] assms(1,2) by simp
  moreover have "main_step a (crawl_init a net seen count)
                 = Some ((crawl_init a net seen count)\<lparr>pc := Finished\<rparr>)"
    using assms(1,2) by (simp add: main_step_def crawl_init_def)
  ultimately show ?thesis by (simp add: idle_inv_def)
qed

theorem zero_budget_empty_report_witness:
  "max_pages (demo_args\<lparr>max_pages := 0\<rparr>) = 0 \<and> (0::int) \<le> 0
   \<and> exec (demo_args\<lparr>max_pages := 0\<rparr>) demo_net [Main]
        (crawl_init (demo_args\<lparr>max_pages := 0\<rparr>) demo_net {} 0)
      = Some ((crawl_init (demo_args\<lparr>max_pages := 0\<rparr>) demo_net {} 0)\<lparr>pc := Finished\<rparr>)
   \<and> report ((crawl_init (demo_args\<lparr>max_pages := 0\<rparr>) demo_net {} 0)\<lparr>pc := Finished\<rparr>) = Map.empty
   \<and> fetched ((crawl_init (demo_args\<lparr>max_pages := 0\<rparr>) demo_net {} 0)\<lparr>pc := Finished\<rparr>) = []"
proof -
  have m: "max_pages (demo_args\<lparr>max_pages := 0\<rparr>) = 0" by simp
  have e: "exec (demo_args\<lparr>max_pages := 0\<rparr>) demo_net [Main]
             (crawl_init (demo_args\<lparr>max_pages := 0\<rparr>) demo_net {} 0)
           = Some ((crawl_init (demo_args\<lparr>max_pages := 0\<rparr>) demo_net {} 0)\<lparr>pc := Finished\<rparr>)"
    by (simp add: main_step_def crawl_init_def)
  show ?thesis
    using zero_budget_empty_report [OF m order_refl e] m by simp
qed

subsection \<open>A failing GET\<close>

text \<open>
  C7. When the GET of a URL raises and the budget test of line 74 has let the call
  through, \<^verbatim>\<open>process_page\<close> returns the result with no spelling issues and no broken
  links and an empty list of links; \<^verbatim>\<open>crawl_count\<close> keeps its value. The exception ends in
  the handler of line 108: the call returns a value, which is all a worker hands to the
  loop of \<^verbatim>\<open>crawl\<close>.
\<close>

theorem process_page_get_raises:
  assumes "http_get net url = Raised" and "count < max_pages a"
  shows "fst (process_page a net parser url seen count) = (Some empty_result, [])
         \<and> spelling_issues empty_result = [] \<and> broken_links empty_result = []
         \<and> fst (snd (process_page a net parser url seen count)) = count"
  using assms by (simp add: process_page_def start_page_def empty_result_def)

theorem process_page_get_raises_witness:
  "http_get demo_net ''http://x.test/gone'' = Raised \<and> (0::int) < max_pages demo_args
   \<and> process_page demo_args demo_net (new_parser\<lparr>allow_all := True\<rparr>) ''http://x.test/gone'' {} 0
      = ((Some empty_result, []), 0, [''http://x.test/gone''], [ErrorCrawling ''http://x.test/gone''])"
proof -
  have g: "http_get demo_net ''http://x.test/gone'' = Raised"
    by (simp add: demo_net_def demo_get_def)
  have c: "(0::int) < max_pages demo_args" by (simp add: demo_args_def)
  have "fst (process_page demo_args demo_net (new_parser\<lparr>allow_all := True\<rparr>) ''http://x.test/gone'' {} 0)
        = (Some empty_result, [])"
    using process_page_get_raises [OF g c] by simp
  moreover have "snd (process_page demo_args demo_net (new_parser\<lparr>allow_all := True\<rparr>) ''http://x.test/gone'' {} 0)
        = (0, [''http://x.test/gone''], [ErrorCrawling ''http://x.test/gone''])"
    using g c by (simp add: process_page_def start_page_def can_fetch_url_def parser_can_fetch_def new_parser_def)
  ultimately show ?thesis using g c by (simp add: prod_eq_iff)
qed

subsection \<open>What is in the visited set\<close>

lemma visited_step:
  assumes "step a net x s = Some s'"
  shows "visited s \<subseteq> visited s'"
  using assms
proof (cases rule: stepE)
  case main
  from main(2) show ?thesis by (cases rule: main_stepE) auto
qed simp_all

lemma demo_prefix:
  "exec demo_args demo_net
     [Main, Main, Main, Main, Work 0, Work 0, Work 0, Work 0, Work 0, Collect 0]
     (crawl_init demo_args demo_net {} 0)
   = Some demo_middle"
  unfolding demo_middle_def demo_final_def
  by (simp add: demo_defs Let_def)

text \<open>
  C2, as stated, fails: the seed is in \<^verbatim>\<open>to_visit\<close> but not in \<^verbatim>\<open>visited\<close> when the loop
  starts (lines 117 and 118 do not touch \<^verbatim>\<open>visited\<close>), and the links that line 150 appends
  are exactly links that are not in \<^verbatim>\<open>visited\<close>.
\<close>

theorem frontier_in_visited_counterexample:
  "\<not> (set (to_visit (crawl_init demo_args demo_net {} 0))
        \<union> dom (report (crawl_init demo_args demo_net {} 0))
        \<subseteq> visited (crawl_init demo_args demo_net {} 0))
   \<and> exec demo_args demo_net
        [Main, Main, Main, Main, Work 0, Work 0, Work 0, Work 0, Work 0, Collect 0]
        (crawl_init demo_args demo_net {} 0) = Some demo_middle
   \<and> ''http://x.test/a#top'' \<in> set (to_visit demo_middle)
   \<and> ''http://x.test/a#top'' \<notin> visited demo_middle"
proof (intro conjI)
  show "\<not> (set (to_visit (crawl_init demo_args demo_net {} 0))
        \<union> dom (report (crawl_init demo_args demo_net {} 0))
        \<subseteq> visited (crawl_init demo_args demo_net {} 0))"
    by (simp add: crawl_init_def)
  show "exec demo_args demo_net
        [Main, Main, Main, Main, Work 0, Work 0, Work 0, Work 0, Work 0, Collect 0]
        (crawl_init demo_args demo_net {} 0) = Some demo_middle"
    by (rule demo_prefix)
  show "''http://x.test/a#top'' \<in> set (to_visit demo_middle)"
    by (simp add: demo_middle_def)
  show "''http://x.test/a#top'' \<notin> visited demo_middle"
    by (simp add: demo_middle_def)
qed

text \<open>
  C2, amended. In every state of a run, every key of the report and every URL that was
  handed to a worker is in \<^verbatim>\<open>visited\<close>, and \<^verbatim>\<open>visited\<close> never loses a member. A URL enters
  \<^verbatim>\<open>visited\<close> when the main thread pops it from \<^verbatim>\<open>to_visit\<close> (lines 132 to 136), not when it
  is put into \<^verbatim>\<open>to_visit\<close>.
\<close>

theorem dispatched_in_visited:
  assumes "exec a net acts (crawl_init a net seen count) = Some s"
  shows "dom (report s) \<subseteq> visited s \<and> urls s \<subseteq> visited s \<and> seen \<subseteq> visited s
         \<and> (\<forall>u rest s'. pc s = InnerBody \<and> to_visit s = u # rest \<and> step a net Main s = Some s'
               \<longrightarrow> visited s' = insert u (visited s) \<and> to_visit s' = rest)
         \<and> (\<forall>later t. exec a net later s = Some t \<longrightarrow> visited s \<subseteq> visited t)"
proof -
  have "run_inv seen count s" using run_inv_exec[OF assms] .
  then have "dom (report s) \<subseteq> visited s \<and> urls s \<subseteq> visited s \<and> seen \<subseteq> visited s"
    by (auto simp: run_inv_def)
  moreover have "visited s' = insert u (visited s) \<and> to_visit s' = rest"
    if "pc s = InnerBody" "to_visit s = u # rest" "step a net Main s = Some s'" for u rest s'
  proof -
    have "main_step a s = Some s'" using that(3) by simp
    then show ?thesis
      by (cases rule: main_stepE) (use that(1,2) in \<open>auto simp: insert_absorb\<close>)
  qed
  moreover have "visited s \<subseteq> visited t" if "exec a net later s = Some t" for later t
    using exec_invariant[where P="\<lambda>t. visited s \<subseteq> visited t", OF that] visited_step by blast
  ultimately show ?thesis by blast
qed

theorem dispatched_in_visited_witness:
  "exec demo_args demo_net demo_run (crawl_init demo_args demo_net {} 0) = Some demo_final
   \<and> dom (report demo_final) = {''http://x.test/'', ''http://x.test/a#top'', ''http://x.test/a#end''}
   \<and> dom (report demo_final) \<subseteq> visited demo_final \<and> urls demo_final \<subseteq> visited demo_final"
proof -
  have "dom (report demo_final) \<subseteq> visited demo_final"
    using dispatched_in_visited [OF demo_exec, THEN conjunct1] .
  moreover have "urls demo_final \<subseteq> visited demo_final"
    using dispatched_in_visited [OF demo_exec, THEN conjunct2, THEN conjunct1] .
  moreover have "dom (report demo_final)
                 = {''http://x.test/'', ''http://x.test/a#top'', ''http://x.test/a#end''}"
    by (simp add: demo_final_def insert_commute)
  ultimately show ?thesis using demo_exec by (intro conjI)
qed

subsection \<open>Two calls in one process\<close>

text \<open>
  C10. \<^verbatim>\<open>crawl\<close> starts from whatever \<^verbatim>\<open>visited\<close> and \<^verbatim>\<open>crawl_count\<close> hold and never resets
  them. So when a second call follows a first one in the same process, it starts from the
  globals the first one left: it dispatches, fetches and reports no URL that the first call
  left in \<^verbatim>\<open>visited\<close>, and when the first call left \<^verbatim>\<open>crawl_count\<close> at \<^verbatim>\<open>max_pages\<close> or above,
  the report of the second call is empty and the call returns at its first test of line 128.
\<close>

theorem globals_persist:
  assumes "exec a net acts1 (crawl_init a net seen count) = Some s1"
    and "exec a net acts2 (crawl_init a net (visited s1) (crawl_count s1)) = Some s2"
  shows "seen \<subseteq> visited s1 \<and> visited s1 \<subseteq> visited s2
         \<and> count \<le> crawl_count s1 \<and> crawl_count s1 \<le> crawl_count s2
         \<and> dom (report s2) \<inter> visited s1 = {} \<and> urls s2 \<inter> visited s1 = {}
         \<and> set (fetched s2) \<inter> visited s1 = {}
         \<and> (max_pages a \<le> crawl_count s1 \<longrightarrow> report s2 = Map.empty)
         \<and> (max_pages a \<le> crawl_count s1 \<longrightarrow>
              step a net Main (crawl_init a net (visited s1) (crawl_count s1))
                = Some ((crawl_init a net (visited s1) (crawl_count s1))\<lparr>pc := Finished\<rparr>))"
proof -
  have 1: "run_inv seen count s1" using run_inv_exec[OF assms(1)] .
  have 2: "run_inv (visited s1) (crawl_count s1) s2" using run_inv_exec[OF assms(2)] .
  have 3: "max_pages a \<le> crawl_count s1 \<Longrightarrow> report s2 = Map.empty"
    using idle_inv_exec[OF _ assms(2)] by (simp add: idle_inv_def)
  have 4: "max_pages a \<le> crawl_count s1 \<longrightarrow>
              step a net Main (crawl_init a net (visited s1) (crawl_count s1))
                = Some ((crawl_init a net (visited s1) (crawl_count s1))\<lparr>pc := Finished\<rparr>)"
    by (simp add: main_step_def crawl_init_def)
  show ?thesis using 1 2 3 4 unfolding run_inv_def by blast
qed

theorem globals_persist_witness:
  "exec demo_args demo_net demo_run (crawl_init demo_args demo_net {} 0) = Some demo_final
   \<and> exec demo_args demo_net [Main]
        (crawl_init demo_args demo_net (visited demo_final) (crawl_count demo_final))
      = Some ((crawl_init demo_args demo_net (visited demo_final) (crawl_count demo_final))\<lparr>pc := Finished\<rparr>)
   \<and> max_pages demo_args \<le> crawl_count demo_final
   \<and> card (dom (report demo_final)) = 3
   \<and> report ((crawl_init demo_args demo_net (visited demo_final) (crawl_count demo_final))\<lparr>pc := Finished\<rparr>)
      = Map.empty"
proof -
  have c: "max_pages demo_args \<le> crawl_count demo_final"
    by (simp add: demo_args_def demo_final_def)
  have e: "exec demo_args demo_net [Main]
        (crawl_init demo_args demo_net (visited demo_final) (crawl_count demo_final))
      = Some ((crawl_init demo_args demo_net (visited demo_final) (crawl_count demo_final))\<lparr>pc := Finished\<rparr>)"
    using c by (simp add: main_step_def crawl_init_def)
  have "report ((crawl_init demo_args demo_net (visited demo_final) (crawl_count demo_final))\<lparr>pc := Finished\<rparr>)
      = Map.empty"
    using conjunct1 [OF conjunct2 [OF conjunct2 [OF conjunct2 [OF conjunct2 [OF conjunct2 [OF conjunct2 [OF conjunct2 [OF globals_persist [OF demo_exec e]]]]]]]]] c by simp
  moreover have "card (dom (report demo_final)) = 3" by (simp add: demo_final_def)
  ultimately show ?thesis using demo_exec e c by simp
qed

subsection \<open>The internal-link test\<close>









subsection \<open>The identity of a crawl target\<close>

lemma start_page_gets_cases:
  "start_page a net p u c = (st, gets, out) \<Longrightarrow> gets = [] \<or> gets = [u]"
  by (auto simp: start_page_def split: if_splits outcome.splits)

lemma once_inv_main:
  assumes "once_inv s" "main_step a s = Some s'"
  shows "once_inv s'"
  using assms(2)
proof (cases rule: main_stepE)
  case (submit u rest)
  have "u \<notin> set (map url_of (futures s))" "u \<notin> set (fetched s)"
    using assms(1) submit(3) by (auto simp: once_inv_def urls_def)
  then show ?thesis using assms(1) submit(4)
    by (auto simp: once_inv_def urls_def nth_append)
qed (use assms(1) in \<open>auto simp: once_inv_def urls_def\<close>)

lemma once_inv_collect:
  assumes "once_inv s"
  shows "once_inv (collect a i s)"
proof -
  have w: "worker (futures (collect a i s) ! j) = worker (futures s ! j)" for j
    by (cases rule: collect_cases[of s i a]; cases "j = i"; cases "i < length (futures s)")
       (auto simp: list_update_beyond)
  have u: "url_of (futures (collect a i s) ! j) = url_of (futures s ! j)" for j
    by (cases rule: collect_cases[of s i a]; cases "j = i"; cases "i < length (futures s)")
       (auto simp: list_update_beyond)
  have l: "length (futures (collect a i s)) = length (futures s)"
    by (cases rule: collect_cases[of s i a]) auto
  show ?thesis using assms unfolding once_inv_def
    by (simp add: w u l)
qed

lemma once_inv_work:
  assumes "once_inv s" "i < length (futures s)" "\<not> is_done (worker (futures s ! i))"
  shows "once_inv (work a net i s)"
proof -
  have u: "url_of (futures (work a net i s) ! j) = url_of (futures s ! j)" for j
    using assms(3) by (cases rule: workE[of s i a net]; cases "j = i") (auto simp: assms(2))
  have l: "length (futures (work a net i s)) = length (futures s)"
    using assms(3) by (cases rule: workE[of s i a net]) auto
  have w: "worker (futures (work a net i s) ! j) = worker (futures s ! j)" if "j \<noteq> i" for j
    using assms(3) that by (cases rule: workE[of s i a net]) auto
  have d: "url_of (futures s ! j) \<noteq> url_of (futures s ! i)" if "j \<noteq> i" "j < length (futures s)" for j
  proof -
    have "distinct (map url_of (futures s))" using assms(1) by (simp add: once_inv_def)
    then show ?thesis using that assms(2) by (auto simp: distinct_conv_nth)
  qed
  from assms(3) show ?thesis
  proof (cases rule: workE[of s i a net])
    case (start st gets out)
    have g: "gets = [] \<or> gets = [url_of (futures s ! i)]"
      using start_page_gets_cases[OF start(2)] .
    have nf: "url_of (futures s ! i) \<notin> set (fetched s)"
      using assms(1,2) start(1) by (simp add: once_inv_def)
    have iv: "url_of (futures s ! i) \<in> visited s"
      using assms(1,2) urls_nth[of i s] by (auto simp: once_inv_def)
    have ni: "worker (futures (work a net i s) ! i) \<noteq> WStart"
      using start(3) assms(2) by (cases st) auto
    have f: "fetched (work a net i s) = fetched s @ gets" using start(3) by simp
    show ?thesis unfolding once_inv_def
    proof (intro conjI allI impI)
      show "distinct (fetched (work a net i s))"
        using assms(1) g nf f by (auto simp: once_inv_def)
      show "distinct (map url_of (futures (work a net i s)))"
        using assms(1) by (simp add: once_inv_def)
      show "set (fetched (work a net i s)) \<subseteq> visited (work a net i s)"
        using assms(1) g iv f by (auto simp: once_inv_def)
      show "urls (work a net i s) \<subseteq> visited (work a net i s)"
        using assms(1) by (simp add: once_inv_def)
    next
      fix j assume j: "j < length (futures (work a net i s))"
        and ws: "worker (futures (work a net i s) ! j) = WStart"
      have ji: "j \<noteq> i" using ws ni by auto
      have "worker (futures s ! j) = WStart" using ws w[OF ji] by simp
      then have "url_of (futures s ! j) \<notin> set (fetched s)"
        using assms(1) j l by (simp add: once_inv_def)
      moreover have "url_of (futures s ! j) \<noteq> url_of (futures s ! i)"
        using d[OF ji] j l by simp
      ultimately show "url_of (futures (work a net i s) ! j) \<notin> set (fetched (work a net i s))"
        using g f u by auto
    qed
  next
    case (link result new_links h hs)
    have ni: "worker (futures (work a net i s) ! i) \<noteq> WStart"
      using link(2) assms(2) by auto
    have f: "fetched (work a net i s) = fetched s" using link(2) by simp
    have "worker (futures s ! j) = WStart"
      if "worker (futures (work a net i s) ! j) = WStart" for j
      using that ni w[of j] by (cases "j = i") auto
    then show ?thesis using assms(1) unfolding once_inv_def by (simp add: f u l)
  next
    case (count result new_links)
    have ni: "worker (futures (work a net i s) ! i) \<noteq> WStart"
      using count(2) assms(2) by auto
    have f: "fetched (work a net i s) = fetched s" using count(2) by simp
    have "worker (futures s ! j) = WStart"
      if "worker (futures (work a net i s) ! j) = WStart" for j
      using that ni w[of j] by (cases "j = i") auto
    then show ?thesis using assms(1) unfolding once_inv_def by (simp add: f u l)
  qed
qed

lemma once_inv_step:
  assumes "once_inv s" "step a net x s = Some s'"
  shows "once_inv s'"
  using assms(2)
  by (cases rule: stepE) (use assms(1) once_inv_main once_inv_collect once_inv_work in \<open>blast+\<close>)

text \<open>
  C6, as stated, fails: two links of the front page of the small site differ in the
  fragment only, and both are dispatched, fetched and keyed in the report.
\<close>

theorem fragment_identity_counterexample:
  "spec_target ''http://x.test/a#top'' = spec_target ''http://x.test/a#end''
   \<and> exec demo_args demo_net demo_run (crawl_init demo_args demo_net {} 0) = Some demo_final
   \<and> ''http://x.test/a#top'' \<in> dom (report demo_final)
   \<and> ''http://x.test/a#end'' \<in> dom (report demo_final)
   \<and> ''http://x.test/a#top'' \<in> set (fetched demo_final)
   \<and> ''http://x.test/a#end'' \<in> set (fetched demo_final)"
proof (intro conjI)
  show "exec demo_args demo_net demo_run (crawl_init demo_args demo_net {} 0) = Some demo_final"
    by (rule demo_exec)
qed (simp_all add: spec_target_def demo_final_def)

text \<open>
  C6, amended. A crawl target is the URL string as \<^verbatim>\<open>urljoin\<close> returns it, fragment
  included. In every state of a run, no URL string has been sent a GET twice, no two
  futures of a batch carry the same string, and no string that was in \<^verbatim>\<open>visited\<close> when
  \<^verbatim>\<open>crawl\<close> was called is fetched, dispatched or reported; the report, a dictionary, has
  one entry per string.
\<close>

theorem target_is_url_string:
  assumes "exec a net acts (crawl_init a net seen count) = Some s"
  shows "distinct (fetched s) \<and> distinct (map url_of (futures s))
         \<and> set (fetched s) \<inter> seen = {} \<and> urls s \<inter> seen = {} \<and> dom (report s) \<inter> seen = {}"
proof -
  have "once_inv (crawl_init a net seen count)"
    by (simp add: once_inv_def crawl_init_def urls_def)
  then have "once_inv s"
    using exec_invariant[where P=once_inv, OF assms] once_inv_step by blast
  moreover have "run_inv seen count s" using run_inv_exec[OF assms] .
  ultimately show ?thesis unfolding once_inv_def run_inv_def by blast
qed

theorem target_is_url_string_witness:
  "exec demo_args demo_net demo_run (crawl_init demo_args demo_net {} 0) = Some demo_final
   \<and> fetched demo_final = [''http://x.test/'', ''http://x.test/a#end'', ''http://x.test/a#top'']
   \<and> distinct (fetched demo_final)"
proof (intro conjI)
  show "exec demo_args demo_net demo_run (crawl_init demo_args demo_net {} 0) = Some demo_final"
    by (rule demo_exec)
  show "fetched demo_final = [''http://x.test/'', ''http://x.test/a#end'', ''http://x.test/a#top'']"
    by (simp add: demo_final_def)
  show "distinct (fetched demo_final)"
    using target_is_url_string [OF demo_exec, THEN conjunct1] .
qed

subsection \<open>Pages that are denied or that fail\<close>

lemma start_page_not_analysed:
  assumes "count < max_pages a"
    and "\<not> can_fetch_url url parser \<or> http_get net url = Raised"
  shows "\<exists>gets out. start_page a net parser url count = (Early (Some empty_result), gets, out)
           \<and> (out = [] \<or> out = [ErrorCrawling url])"
  using assms by (auto simp: start_page_def)

lemma gone_reached:
  "exec gone_args demo_net [Main, Main, Main, Main] (crawl_init gone_args demo_net {} 0) = Some gone_state"
  by (simp add: gone_state_def gone_args_def crawl_init_def main_step_def)

lemma deny_reached:
  "exec demo_args deny_net [Main, Main, Main, Main] (crawl_init demo_args deny_net {} 0) = Some deny_state"
  by (simp add: deny_state_def demo_args_def crawl_init_def main_step_def)

text \<open>
  C9. Let the worker of future \<open>i\<close> be about to start on its URL with budget left, and let
  robots deny the URL or the GET raise. Then its step is the whole call: \<^verbatim>\<open>process_page\<close>
  returns the untouched \<^verbatim>\<open>result\<close> and no links, \<^verbatim>\<open>crawl_count\<close> and the report are as they
  were, and what is printed is nothing or the error line, never a progress line. When the
  main thread takes a future that returned this way, the URL becomes a key of the report
  with the empty entry, the frontier and \<^verbatim>\<open>crawl_count\<close> stay, nothing is printed, and the
  entry counts in \<^verbatim>\<open>Total Pages Crawled\<close>.
\<close>

theorem unanalysed_page_reported:
  "(i < length (futures s) \<and> worker (futures s ! i) = WStart \<and> crawl_count s < max_pages a
      \<and> (\<not> can_fetch_url (url_of (futures s ! i)) (rp s) \<or> http_get net (url_of (futures s ! i)) = Raised)
    \<longrightarrow> step a net (Work i) s = Some (work a net i s)
        \<and> worker (futures (work a net i s) ! i) = WDone (Some empty_result) []
        \<and> url_of (futures (work a net i s) ! i) = url_of (futures s ! i)
        \<and> crawl_count (work a net i s) = crawl_count s
        \<and> report (work a net i s) = report s
        \<and> (printed (work a net i s) = printed s
            \<or> printed (work a net i s) = printed s @ [ErrorCrawling (url_of (futures s ! i))]))
   \<and> (pc t = Collecting \<and> j < length (futures t) \<and> \<not> collected (futures t ! j)
      \<and> worker (futures t ! j) = WDone (Some empty_result) []
    \<longrightarrow> step a net (Collect j) t = Some (collect a j t)
        \<and> report (collect a j t) = (report t)(url_of (futures t ! j) \<mapsto> empty_result)
        \<and> spelling_issues (the (report (collect a j t) (url_of (futures t ! j)))) = []
        \<and> broken_links (the (report (collect a j t) (url_of (futures t ! j)))) = []
        \<and> to_visit (collect a j t) = to_visit t
        \<and> crawl_count (collect a j t) = crawl_count t
        \<and> printed (collect a j t) = printed t
        \<and> total_pages (report (collect a j t)) = card (insert (url_of (futures t ! j)) (dom (report t))))"
proof (intro conjI impI)
  assume h: "i < length (futures s) \<and> worker (futures s ! i) = WStart \<and> crawl_count s < max_pages a
      \<and> (\<not> can_fetch_url (url_of (futures s ! i)) (rp s) \<or> http_get net (url_of (futures s ! i)) = Raised)"
  then obtain gets out where
    sp: "start_page a net (rp s) (url_of (futures s ! i)) (crawl_count s) = (Early (Some empty_result), gets, out)"
    and out: "out = [] \<or> out = [ErrorCrawling (url_of (futures s ! i))]"
    using start_page_not_analysed[of "crawl_count s" a "url_of (futures s ! i)" "rp s" net] by blast
  have w: "work a net i s =
      s\<lparr>futures := (futures s)[i := (futures s ! i)\<lparr>worker := WDone (Some empty_result) []\<rparr>],
        fetched := fetched s @ gets, printed := printed s @ out\<rparr>"
    using h sp by (simp add: work_def Let_def)
  show "step a net (Work i) s = Some (work a net i s)" using h by (simp add: is_done_def)
  show "worker (futures (work a net i s) ! i) = WDone (Some empty_result) []" using h w by simp
  show "url_of (futures (work a net i s) ! i) = url_of (futures s ! i)" using h w by simp
  show "crawl_count (work a net i s) = crawl_count s" using w by simp
  show "report (work a net i s) = report s" using w by simp
  show "printed (work a net i s) = printed s
        \<or> printed (work a net i s) = printed s @ [ErrorCrawling (url_of (futures s ! i))]"
    using w out by auto
next
  assume h: "pc t = Collecting \<and> j < length (futures t) \<and> \<not> collected (futures t ! j)
      \<and> worker (futures t ! j) = WDone (Some empty_result) []"
  have c: "collect a j t =
      t\<lparr>futures := (futures t)[j := (futures t ! j)\<lparr>collected := True\<rparr>],
        report := (report t)(url_of (futures t ! j) \<mapsto> empty_result),
        to_visit := to_visit t\<rparr>"
    using h by (simp add: collect_def Let_def)
  show "step a net (Collect j) t = Some (collect a j t)" using h by (simp add: is_done_def)
  show r: "report (collect a j t) = (report t)(url_of (futures t ! j) \<mapsto> empty_result)"
    using c by simp
  show "spelling_issues (the (report (collect a j t) (url_of (futures t ! j)))) = []"
    using r by (simp add: empty_result_def)
  show "broken_links (the (report (collect a j t) (url_of (futures t ! j)))) = []"
    using r by (simp add: empty_result_def)
  show "to_visit (collect a j t) = to_visit t" using c by simp
  show "crawl_count (collect a j t) = crawl_count t" using c by simp
  show "printed (collect a j t) = printed t" using c by simp
  show "total_pages (report (collect a j t)) = card (insert (url_of (futures t ! j)) (dom (report t)))"
    using r by (simp add: total_pages_def)
qed

theorem unanalysed_page_reported_witness:
  "exec gone_args demo_net [Main, Main, Main, Main] (crawl_init gone_args demo_net {} 0) = Some gone_state
   \<and> exec gone_args demo_net [Work 0, Collect 0] gone_state
       = Some (collect gone_args 0 (work gone_args demo_net 0 gone_state))
   \<and> report (collect gone_args 0 (work gone_args demo_net 0 gone_state))
       = [''http://x.test/gone'' \<mapsto> empty_result]
   \<and> crawl_count (collect gone_args 0 (work gone_args demo_net 0 gone_state)) = 0
   \<and> total_pages (report (collect gone_args 0 (work gone_args demo_net 0 gone_state))) = 1
   \<and> exec demo_args deny_net [Main, Main, Main, Main] (crawl_init demo_args deny_net {} 0) = Some deny_state
   \<and> exec demo_args deny_net [Work 0, Collect 0] deny_state
       = Some (collect demo_args 0 (work demo_args deny_net 0 deny_state))
   \<and> report (collect demo_args 0 (work demo_args deny_net 0 deny_state))
       = [''http://x.test/'' \<mapsto> empty_result]
   \<and> crawl_count (collect demo_args 0 (work demo_args deny_net 0 deny_state)) = 0
   \<and> printed (collect demo_args 0 (work demo_args deny_net 0 deny_state)) = []
   \<and> total_pages (report (collect demo_args 0 (work demo_args deny_net 0 deny_state))) = 1"
proof -
  define g where "g = work gone_args demo_net 0 gone_state"
  define d where "d = work demo_args deny_net 0 deny_state"
  have hg: "0 < length (futures gone_state) \<and> worker (futures gone_state ! 0) = WStart
      \<and> crawl_count gone_state < max_pages gone_args
      \<and> (\<not> can_fetch_url (url_of (futures gone_state ! 0)) (rp gone_state)
          \<or> http_get demo_net (url_of (futures gone_state ! 0)) = Raised)"
    by (simp add: gone_state_def gone_args_def crawl_init_def demo_net_def demo_get_def)
  have hd: "0 < length (futures deny_state) \<and> worker (futures deny_state ! 0) = WStart
      \<and> crawl_count deny_state < max_pages demo_args
      \<and> (\<not> can_fetch_url (url_of (futures deny_state ! 0)) (rp deny_state)
          \<or> http_get deny_net (url_of (futures deny_state ! 0)) = Raised)"
    by (simp add: deny_state_def demo_args_def crawl_init_def deny_net_def demo_net_def
        parser_read_def new_parser_def can_fetch_url_def parser_can_fetch_def)
  note ag = unanalysed_page_reported [THEN conjunct1, rule_format, OF hg, folded g_def]
  note ad = unanalysed_page_reported [THEN conjunct1, rule_format, OF hd, folded d_def]
  have ug: "url_of (futures gone_state ! 0) = ''http://x.test/gone''" "report gone_state = Map.empty"
    "crawl_count gone_state = 0" "pc gone_state = Collecting" "length (futures gone_state) = 1"
    "\<not> collected (futures gone_state ! 0)"
    by (simp_all add: gone_state_def crawl_init_def)
  have ud: "url_of (futures deny_state ! 0) = ''http://x.test/''" "report deny_state = Map.empty"
    "crawl_count deny_state = 0" "pc deny_state = Collecting" "length (futures deny_state) = 1"
    "\<not> collected (futures deny_state ! 0)" "printed deny_state = []"
    by (simp_all add: deny_state_def crawl_init_def)
  have wg: "g = gone_state\<lparr>futures := [\<lparr>url_of = ''http://x.test/gone'', worker = WDone (Some empty_result) [],
                collected = False\<rparr>], fetched := [''http://x.test/gone''],
                printed := [ErrorCrawling ''http://x.test/gone'']\<rparr>"
    unfolding g_def
    by (simp add: work_def Let_def gone_state_def gone_args_def crawl_init_def start_page_def
        demo_net_def demo_get_def parser_read_def new_parser_def can_fetch_url_def parser_can_fetch_def)
  have wd: "d = deny_state\<lparr>futures := [\<lparr>url_of = ''http://x.test/'', worker = WDone (Some empty_result) [],
                collected = False\<rparr>]\<rparr>"
    unfolding d_def
    by (simp add: work_def Let_def deny_state_def demo_args_def crawl_init_def start_page_def deny_net_def
        demo_net_def parser_read_def new_parser_def can_fetch_url_def parser_can_fetch_def)
  have cg: "pc g = Collecting \<and> 0 < length (futures g) \<and> \<not> collected (futures g ! 0)
      \<and> worker (futures g ! 0) = WDone (Some empty_result) []"
    using ug by (simp add: wg)
  have cd: "pc d = Collecting \<and> 0 < length (futures d) \<and> \<not> collected (futures d ! 0)
      \<and> worker (futures d ! 0) = WDone (Some empty_result) []"
    using ud by (simp add: wd)
  note bg = unanalysed_page_reported [THEN conjunct2, rule_format, OF cg, of gone_args demo_net]
  note bd = unanalysed_page_reported [THEN conjunct2, rule_format, OF cd, of demo_args deny_net]
  have rg: "report g = Map.empty" "crawl_count g = 0" "url_of (futures g ! 0) = ''http://x.test/gone''"
    using ug by (simp_all add: wg)
  have rd: "report d = Map.empty" "crawl_count d = 0" "url_of (futures d ! 0) = ''http://x.test/''"
    "printed d = []"
    using ud by (simp_all add: wd)
  have 1: "exec gone_args demo_net [Work 0, Collect 0] gone_state = Some (collect gone_args 0 g)"
    using ag bg by simp
  have 2: "report (collect gone_args 0 g) = [''http://x.test/gone'' \<mapsto> empty_result]"
    using bg rg by simp
  have 3: "crawl_count (collect gone_args 0 g) = 0" using bg rg by simp
  have 4: "total_pages (report (collect gone_args 0 g)) = 1" using bg rg by (simp add: total_pages_def)
  have 5: "exec demo_args deny_net [Work 0, Collect 0] deny_state = Some (collect demo_args 0 d)"
    using ad bd by simp
  have 6: "report (collect demo_args 0 d) = [''http://x.test/'' \<mapsto> empty_result]"
    using bd rd by simp
  have 7: "crawl_count (collect demo_args 0 d) = 0" using bd rd by simp
  have 8: "printed (collect demo_args 0 d) = []" using bd rd by simp
  have 9: "total_pages (report (collect demo_args 0 d)) = 1" using bd rd by (simp add: total_pages_def)
  show ?thesis
    using gone_reached deny_reached 1 2 3 4 5 6 7 8 9 unfolding g_def d_def by (intro conjI)
qed

subsection \<open>A robots file that cannot be read\<close>

text \<open>
  C4 fails on the code. When \<^verbatim>\<open>rp.read()\<close> raises, line 125 swallows the exception and the
  parser stays as it was made, with \<^verbatim>\<open>last_checked\<close> unset; \<^verbatim>\<open>can_fetch\<close> of such a parser
  returns \<^verbatim>\<open>False\<close> and raises nothing, so the handler of line 62 never answers \<^verbatim>\<open>True\<close>.
  Every URL is denied: on the small site, where three pages are fetched when
  \<^verbatim>\<open>robots.txt\<close> is answered by 404, no GET is sent at all and the run ends with the seed
  alone in the report, as an empty entry.
\<close>

theorem unreadable_robots_denies_all:
  "rp (crawl_init demo_args unreachable_net {} 0) = new_parser
   \<and> can_fetch_url u new_parser = False
   \<and> exec demo_args unreachable_net unreachable_run (crawl_init demo_args unreachable_net {} 0)
       = Some unreachable_final
   \<and> fetched unreachable_final = []
   \<and> report unreachable_final = [''http://x.test/'' \<mapsto> empty_result]
   \<and> exec demo_args demo_net demo_run (crawl_init demo_args demo_net {} 0) = Some demo_final
   \<and> fetched demo_final = [''http://x.test/'', ''http://x.test/a#end'', ''http://x.test/a#top'']"
proof (intro conjI)
  show "rp (crawl_init demo_args unreachable_net {} 0) = new_parser"
    by (simp add: crawl_init_def unreachable_net_def parser_read_def)
  show "can_fetch_url u new_parser = False"
    by (simp add: can_fetch_url_def parser_can_fetch_def new_parser_def)
  show "exec demo_args unreachable_net unreachable_run (crawl_init demo_args unreachable_net {} 0)
       = Some unreachable_final"
    unfolding unreachable_run_def unreachable_final_def
    by (simp add: unreachable_net_def demo_defs Let_def)
  show "exec demo_args demo_net demo_run (crawl_init demo_args demo_net {} 0) = Some demo_final"
    by (rule demo_exec)
qed (simp_all add: unreachable_final_def demo_final_def)

subsection \<open>Termination\<close>















subsection \<open>A seed that cannot be fetched\<close>




subsection \<open>The variant of the outer loop\<close>









end
